theory Spec2Isabelle
  imports Main "HOL-Library.Word"
begin

unbundle bit_operations_syntax

section \<open>Python values, errors and the configuration\<close>

text \<open>
  Exceptions of the Python source are values: every function that can raise returns
  \<open>py_error + 'a\<close>, with \<open>Inl\<close> for the exception.
\<close>

datatype py_error =
    ValueError
  | IndexError
  | KeyError
  | OverflowError
  | ZeroDivisionError
  | PyException

type_synonym byte = "8 word"
type_synonym bytes = "byte list"
type_synonym poly = "int list"

text \<open>The constants of \<^verbatim>\<open>src/config.py\<close> (class Config).\<close>

definition Config_Q :: int where "Config_Q = 8380417"
definition Config_N :: nat where "Config_N = 256"
definition Config_K :: nat where "Config_K = 2"
definition Config_L :: nat where "Config_L = 2"
definition Config_ETA :: int where "Config_ETA = 2"
definition Config_BETA :: int where "Config_BETA = 250"
definition Config_GAMMA2 :: int where "Config_GAMMA2 = (Config_Q - 1) div 8"
definition Config_GAMMA1 :: int where "Config_GAMMA1 = (Config_Q - 1) div 2"
definition Config_TAU :: nat where "Config_TAU = 39"
definition Config_T_THRESHOLD :: nat where "Config_T_THRESHOLD = 3"
definition Config_N_PARTICIPANTS :: nat where "Config_N_PARTICIPANTS = 5"
definition Config_LARGE_PRIME_Q :: int where "Config_LARGE_PRIME_Q = 257"

text \<open>Running a list of fallible steps: the first exception wins.\<close>

fun collect :: "('e + 'a) list \<Rightarrow> 'e + 'a list" where
  "collect [] = Inr []"
| "collect (x # xs) =
     (case x of
        Inl e \<Rightarrow> Inl e
      | Inr v \<Rightarrow> (case collect xs of Inl e \<Rightarrow> Inl e | Inr vs \<Rightarrow> Inr (v # vs)))"

subsection \<open>numpy integers\<close>

text \<open>
  numpy's default integer arrays hold 64-bit signed integers. An operation of such an
  array with a Python integer that fits 64 bits is computed in 64 bits and wraps around
  silently; a Python integer that does not fit raises OverflowError (numpy 2; older
  versions promote the array instead). \<open>wrap64\<close> is the wrap-around, also of a cast to
  64 bits.
\<close>

definition int64_ok :: "int \<Rightarrow> bool" where
  "int64_ok x = (- (2 ^ 63) \<le> x \<and> x < 2 ^ 63)"

definition wrap64 :: "int \<Rightarrow> int" where
  "wrap64 x = (x + 2 ^ 63) mod 2 ^ 64 - 2 ^ 63"

text \<open>
  \<^verbatim>\<open>astype(np.uint8)\<close> of an array of Python integers (\<^verbatim>\<open>dtype=object\<close>): every element
  is converted on its own, and numpy 2 raises OverflowError for one outside \<open>[0, 255]\<close>.
\<close>

definition object_astype_uint8 :: "int list \<Rightarrow> py_error + int list" where
  "object_astype_uint8 xs =
     (if list_all (\<lambda>v. 0 \<le> v \<and> v \<le> 255) xs then Inr xs else Inl OverflowError)"

section \<open>The threshold challenge (crypto\_lattice/signer.py)\<close>

text \<open>
  \<^verbatim>\<open>int(x).to_bytes(length, 'little', signed=...)\<close>: the little-endian bytes of \<open>x\<close>,
  two's complement when signed; OverflowError when \<open>x\<close> does not fit.
\<close>

definition int_to_bytes_little :: "nat \<Rightarrow> bool \<Rightarrow> int \<Rightarrow> py_error + bytes" where
  "int_to_bytes_little len sgnd x =
     (if (if sgnd then - (2 ^ (8 * len - 1)) \<le> x \<and> x < 2 ^ (8 * len - 1)
          else 0 \<le> x \<and> x < 2 ^ (8 * len))
      then Inr (map (\<lambda>i. word_of_int (x div 256 ^ i)) [0..<len])
      else Inl OverflowError)"

text \<open>
  The scan of the digest: \<^verbatim>\<open>for i in range(len(digest))\<close> with the running coefficient
  list \<open>c\<close> and the counter \<open>weight\<close>; the \<^verbatim>\<open>break\<close> is the first branch.
\<close>

fun challenge_scan :: "bytes \<Rightarrow> poly \<Rightarrow> nat \<Rightarrow> poly" where
  "challenge_scan [] c weight = c"
| "challenge_scan (b # digest) c weight =
     (if weight \<ge> Config_TAU then c
      else let idx = unat b mod Config_N in
        if c ! idx = 0
        then challenge_scan digest (c[idx := (if b AND 1 \<noteq> 0 then 1 else - 1)]) (weight + 1)
        else challenge_scan digest c weight)"

text \<open>
  \<^verbatim>\<open>ThresholdSigner._derive_challenge\<close>. The extendable-output hash
  \<^verbatim>\<open>hashlib.shake_256(data).digest(n)\<close> is a library function outside the repository;
  it is the parameter \<open>shake_256\<close>.
\<close>

definition ThresholdSigner_derive_challenge ::
  "(bytes \<Rightarrow> nat \<Rightarrow> bytes) \<Rightarrow> bytes \<Rightarrow> int list list \<Rightarrow> int \<Rightarrow> py_error + poly" where
  "ThresholdSigner_derive_challenge shake_256 message W_HighBits timestamp =
     (case collect (map (int_to_bytes_little 4 True) (concat W_HighBits)) of
        Inl e \<Rightarrow> Inl e
      | Inr w_bytes \<Rightarrow>
          (case int_to_bytes_little 8 False timestamp of
             Inl e \<Rightarrow> Inl e
           | Inr t_bytes \<Rightarrow>
               let input_data = message @ concat w_bytes @ t_bytes;
                   digest = shake_256 input_data (Config_N div 2)
               in Inr (challenge_scan digest (replicate Config_N 0) 0)))"

text \<open>
  \<^verbatim>\<open>SignatureAggregator.derive_challenge\<close> repeats the same code
  (the class defines it twice, with the same body).
\<close>

definition SignatureAggregator_derive_challenge ::
  "(bytes \<Rightarrow> nat \<Rightarrow> bytes) \<Rightarrow> bytes \<Rightarrow> int list list \<Rightarrow> int \<Rightarrow> py_error + poly" where
  "SignatureAggregator_derive_challenge shake_256 message W_HighBits timestamp =
     (case collect (map (int_to_bytes_little 4 True) (concat W_HighBits)) of
        Inl e \<Rightarrow> Inl e
      | Inr w_bytes \<Rightarrow>
          (case int_to_bytes_little 8 False timestamp of
             Inl e \<Rightarrow> Inl e
           | Inr t_bytes \<Rightarrow>
               let input_data = message @ concat w_bytes @ t_bytes;
                   digest = shake_256 input_data (Config_N div 2)
               in Inr (challenge_scan digest (replicate Config_N 0) 0)))"


definition nz :: "poly \<Rightarrow> nat set" where
  "nz c = {i. i < length c \<and> c ! i \<noteq> 0}"

text \<open>Every nonzero coefficient is \<open>- 1\<close> at an even index and \<open>1\<close> at an odd one.\<close>

definition parity_signed :: "poly \<Rightarrow> bool" where
  "parity_signed c = (\<forall>i<length c. c ! i \<noteq> 0 \<longrightarrow> c ! i = (if even i then - 1 else 1))"

text \<open>
  Two functions to put in the place of the hash when the derivation is run on concrete
  inputs: a digest of \<open>n\<close> equal bytes, and \<open>shake_256_sample\<close>, which holds the value of
  \<^verbatim>\<open>hashlib.shake_256(data).digest(128)\<close> for the one input
  \<^verbatim>\<open>data = (1).to_bytes(8, 'little')\<close> (empty message, no commitment coefficients,
  timestamp 1) and is not meant to be read elsewhere.
\<close>

definition constant_xof :: "byte \<Rightarrow> bytes \<Rightarrow> nat \<Rightarrow> bytes" where
  "constant_xof b input_data n = replicate n b"


subsection \<open>Aggregation of responses and commitments\<close>

text \<open>
  The body of the accumulation loops
  \<^verbatim>\<open>for l in range(L): for i in range(N): z_sum[l][i] += z_share[l][i]\<close>
  for one share: IndexError when the share has fewer than \<open>rows\<close> polynomials or one of
  the first \<open>rows\<close> has fewer than \<open>cols\<close> coefficients (with \<open>cols = 0\<close> the inner loop
  is empty and nothing is indexed).
\<close>

definition add_share :: "nat \<Rightarrow> nat \<Rightarrow> int list list \<Rightarrow> int list list \<Rightarrow> py_error + int list list" where
  "add_share rows cols acc share =
     (if 0 < cols \<and> (length share < rows \<or> list_ex (\<lambda>l. length (share ! l) < cols) [0..<rows])
      then Inl IndexError
      else Inr (map (\<lambda>l. map (\<lambda>i. acc ! l ! i + share ! l ! i) [0..<cols]) [0..<rows]))"

fun accumulate_shares ::
  "nat \<Rightarrow> nat \<Rightarrow> int list list \<Rightarrow> int list list list \<Rightarrow> py_error + int list list" where
  "accumulate_shares rows cols acc [] = Inr acc"
| "accumulate_shares rows cols acc (share # shares) =
     (case add_share rows cols acc share of
        Inl e \<Rightarrow> Inl e
      | Inr acc' \<Rightarrow> accumulate_shares rows cols acc' shares)"

text \<open>
  \<^verbatim>\<open>SignatureAggregator.aggregate_responses\<close>: \<^verbatim>\<open>None\<close> for an empty list; otherwise the
  dimensions are read off the first share and all shares are summed, with no reduction
  modulo \<open>Q\<close>. The function has no threshold parameter.
\<close>

definition aggregate_responses :: "int list list list \<Rightarrow> py_error + int list list option" where
  "aggregate_responses z_shares =
     (case z_shares of
        [] \<Rightarrow> Inr None
      | z0 # _ \<Rightarrow>
          (case z0 of
             [] \<Rightarrow> Inl IndexError
           | p0 # _ \<Rightarrow>
               (case accumulate_shares (length z0) (length p0)
                       (replicate (length z0) (replicate (length p0) 0)) z_shares of
                  Inl e \<Rightarrow> Inl e
                | Inr z_sum \<Rightarrow> Inr (Some z_sum))))"

text \<open>The coefficient-wise sum of a list of shares of \<open>rows\<close> polynomials with \<open>cols\<close> coefficients.\<close>

definition shares_sum :: "nat \<Rightarrow> nat \<Rightarrow> int list list list \<Rightarrow> int list list" where
  "shares_sum rows cols shares =
     map (\<lambda>l. map (\<lambda>i. sum_list (map (\<lambda>z. z ! l ! i) shares)) [0..<cols]) [0..<rows]"

definition well_shaped :: "nat \<Rightarrow> nat \<Rightarrow> int list list \<Rightarrow> bool" where
  "well_shaped rows cols share = (length share = rows \<and> list_all (\<lambda>p. length p = cols) share)"

section \<open>CRT secret sharing (secret\_sharing)\<close>

subsection \<open>Modular inverse (math\_utils.py, reconstructor.py)\<close>

text \<open>
  \<^verbatim>\<open>extended_gcd(a, b)\<close> of math\_utils.py and \<^verbatim>\<open>_egcd\<close> of the reconstructor are the same
  recursion. Python's \<^verbatim>\<open>%\<close> and \<^verbatim>\<open>//\<close> round towards minus infinity, as \<open>mod\<close> and \<open>div\<close> on
  \<open>int\<close> do; the divisor \<open>a\<close> is not zero where they are used.
\<close>

function extended_gcd :: "int \<Rightarrow> int \<Rightarrow> int \<times> int \<times> int" where
  "extended_gcd a b =
     (if a = 0 then (b, 0, 1)
      else (case extended_gcd (b mod a) a of (g, y, x) \<Rightarrow> (g, x - (b div a) * y, y)))"
  by pat_completeness auto
termination
  by (relation "measure (\<lambda>(a, b). nat \<bar>a\<bar>)") (auto simp: abs_mod_less)

declare extended_gcd.simps [simp del]

text \<open>
  \<^verbatim>\<open>mod_inverse(a, m)\<close> / \<^verbatim>\<open>_modinv\<close>: an exception when the gcd is not 1; \<^verbatim>\<open>x % m\<close> raises
  ZeroDivisionError for \<open>m = 0\<close>.
\<close>

definition mod_inverse :: "int \<Rightarrow> int \<Rightarrow> py_error + int" where
  "mod_inverse a m =
     (case extended_gcd a m of
        (g, x, y) \<Rightarrow>
          if g \<noteq> 1 then Inl PyException
          else if m = 0 then Inl ZeroDivisionError
          else Inr (x mod m))"

subsection \<open>Images and shares\<close>

text \<open>
  A numpy array of shape \<open>(h, w, c)\<close> is its shape and its elements in row-major order
  (what \<^verbatim>\<open>flatten()\<close> and \<^verbatim>\<open>reshape\<close> read and write).
\<close>

record image =
  img_shape :: "nat \<times> nat \<times> nat"
  img_data :: "int list"

definition image_wf :: "image \<Rightarrow> bool" where
  "image_wf im = (case img_shape im of (h, w, c) \<Rightarrow> length (img_data im) = h * w * c)"

text \<open>
  \<^verbatim>\<open>SharePayload\<close>, and the dictionary \<^verbatim>\<open>{'idx', 'mod', 'shape', 'data'}\<close> that its
  \<^verbatim>\<open>to_bytes\<close> pickles and the reconstructor reads.
\<close>

record share_payload =
  sp_index :: nat
  sp_modulus :: int
  sp_data :: "int list"
  sp_shape :: "nat \<times> nat \<times> nat"

subsection \<open>ImageCRTSplitter (splitter.py)\<close>

record splitter =
  spl_n :: nat
  spl_t :: nat
  spl_moduli :: "int list"
  spl_reconstruction_capacity :: int

text \<open>The double loop of \<^verbatim>\<open>_validate_moduli\<close> over \<open>i < j\<close>.\<close>

fun all_pairs_coprime :: "int list \<Rightarrow> bool" where
  "all_pairs_coprime [] = True"
| "all_pairs_coprime (m # ms) = (list_all (\<lambda>k. gcd m k = 1) ms \<and> all_pairs_coprime ms)"

definition validate_moduli :: "nat \<Rightarrow> int list \<Rightarrow> py_error + unit" where
  "validate_moduli n moduli =
     (if length moduli \<noteq> n then Inl ValueError
      else if \<not> all_pairs_coprime moduli then Inl ValueError
      else if list_ex (\<lambda>m. m \<le> 255) moduli then Inl ValueError
      else Inr ())"

text \<open>
  The constructor: the moduli are sorted, validated, and the product of the \<open>t\<close>
  smallest is stored (\<^verbatim>\<open>reduce\<close> without an initial value raises TypeError on an empty
  slice).
\<close>

definition ImageCRTSplitter_init :: "nat \<Rightarrow> nat \<Rightarrow> int list \<Rightarrow> py_error + splitter" where
  "ImageCRTSplitter_init n t moduli =
     (let sorted_moduli = sort moduli in
      case validate_moduli n sorted_moduli of
        Inl e \<Rightarrow> Inl e
      | Inr _ \<Rightarrow>
          if take t sorted_moduli = [] then Inl PyException
          else Inr \<lparr>spl_n = n, spl_t = t, spl_moduli = sorted_moduli,
                    spl_reconstruction_capacity = prod_list (take t sorted_moduli)\<rparr>)"

text \<open>numpy's \<^verbatim>\<open>%\<close> on an integer array gives 0 for a zero divisor.\<close>

definition np_mod :: "int \<Rightarrow> int \<Rightarrow> int" where
  "np_mod x m = (if m = 0 then 0 else x mod m)"

text \<open>
  \<^verbatim>\<open>split\<close>: \<^verbatim>\<open>flat_pixels = image_array.flatten().astype(int)\<close> is a 64-bit array, and
  share \<open>i\<close> holds \<^verbatim>\<open>(flat_pixels % m_i).astype(np.uint16)\<close> for the \<open>i\<close>-th sorted modulus,
  with the index, the modulus and the shape of the image. The modulus is a Python
  integer: one that does not fit 64 bits raises OverflowError in \<^verbatim>\<open>flat_pixels % m\<close>.
\<close>

definition split :: "splitter \<Rightarrow> image \<Rightarrow> py_error + share_payload list" where
  "split sp image_array =
     (if list_ex (\<lambda>m. \<not> int64_ok m) (spl_moduli sp) then Inl OverflowError
      else Inr (map (\<lambda>(i, m).
                      \<lparr>sp_index = i, sp_modulus = m,
                       sp_data = map (\<lambda>p. np_mod (wrap64 p) m mod 65536) (img_data image_array),
                       sp_shape = img_shape image_array\<rparr>)
                   (enumerate 0 (spl_moduli sp))))"

subsection \<open>ImageCRTReconstructor.reconstruct (reconstructor.py)\<close>

text \<open>
  \<^verbatim>\<open>acc += term\<close> on one-dimensional arrays: elementwise for equal lengths, a term of
  one element is broadcast, everything else is numpy's broadcasting ValueError.
\<close>

definition np_iadd :: "int list \<Rightarrow> int list \<Rightarrow> py_error + int list" where
  "np_iadd acc term =
     (if length term = length acc then Inr (map2 (+) acc term)
      else if length term = 1 then Inr (map (\<lambda>a. a + hd term) acc)
      else Inl ValueError)"

text \<open>The loop \<^verbatim>\<open>for share in valid_shares\<close> with the accumulator \<open>acc\<close>.\<close>

fun crt_accumulate :: "int \<Rightarrow> int list \<Rightarrow> share_payload list \<Rightarrow> py_error + int list" where
  "crt_accumulate M acc [] = Inr acc"
| "crt_accumulate M acc (share # shares) =
     (let mi = sp_modulus share in
      if mi = 0 then Inl ZeroDivisionError
      else let Mi = M div mi in
        case mod_inverse Mi mi of
          Inl e \<Rightarrow> Inl e
        | Inr yi \<Rightarrow>
            (case np_iadd acc (map (\<lambda>d. d * Mi * yi) (sp_data share)) of
               Inl e \<Rightarrow> Inl e
             | Inr acc' \<Rightarrow> crt_accumulate M acc' shares))"

text \<open>
  \<^verbatim>\<open>reconstruct(valid_shares)\<close>: \<^verbatim>\<open>None\<close> for no shares; otherwise the CRT sum over
  whatever shares it is given, reduced modulo the product \<open>M\<close> of their moduli, cast to
  bytes (\<^verbatim>\<open>astype(np.uint8)\<close>) and reshaped to the shape of the first share. The arrays
  have \<^verbatim>\<open>dtype=object\<close>: the arithmetic is Python's, on unbounded integers. The function
  has no threshold parameter.
\<close>

definition reconstruct :: "share_payload list \<Rightarrow> py_error + image option" where
  "reconstruct valid_shares =
     (case valid_shares of
        [] \<Rightarrow> Inr None
      | s0 # _ \<Rightarrow>
          (let moduli = map sp_modulus valid_shares;
               M = prod_list moduli;
               shape = sp_shape s0;
               pixel_count = (case shape of (h, w, c) \<Rightarrow> h * w * c)
           in case crt_accumulate M (replicate pixel_count 0) valid_shares of
                Inl e \<Rightarrow> Inl e
              | Inr acc \<Rightarrow>
                  (case object_astype_uint8 (map (\<lambda>v. v mod M) acc) of
                     Inl e \<Rightarrow> Inl e
                   | Inr result_flat \<Rightarrow> Inr (Some \<lparr>img_shape = shape, img_data = result_flat\<rparr>))))"

subsection \<open>batch\_crt\_solve (math\_utils.py)\<close>

text \<open>The weights \<^verbatim>\<open>M_i * inv_i\<close>, one per modulus, in order.\<close>

fun crt_weights :: "int \<Rightarrow> int list \<Rightarrow> py_error + int list" where
  "crt_weights M_prime [] = Inr []"
| "crt_weights M_prime (m # ms) =
     (if m = 0 then Inl ZeroDivisionError
      else case mod_inverse (M_prime div m) m of
        Inl e \<Rightarrow> Inl e
      | Inr inv_i \<Rightarrow>
          (case crt_weights M_prime ms of
             Inl e \<Rightarrow> Inl e
           | Inr ws \<Rightarrow> Inr ((M_prime div m) * inv_i # ws)))"

text \<open>
  The accumulation \<^verbatim>\<open>for i in range(t): sum_val += shares[i] * weights[i]\<close>;
  \<^verbatim>\<open>shares[i]\<close> raises IndexError when there are fewer shares than moduli.
\<close>

fun weighted_sum :: "int list \<Rightarrow> int list list \<Rightarrow> int list \<Rightarrow> py_error + int list" where
  "weighted_sum sum_val shares [] = Inr sum_val"
| "weighted_sum sum_val [] (w # ws) = Inl IndexError"
| "weighted_sum sum_val (sh # shares) (w # ws) =
     (case np_iadd sum_val (map (\<lambda>d. d * w) sh) of
        Inl e \<Rightarrow> Inl e
      | Inr sum_val' \<Rightarrow> weighted_sum sum_val' shares ws)"

definition batch_crt_solve :: "int list list \<Rightarrow> int list \<Rightarrow> int \<Rightarrow> py_error + int list" where
  "batch_crt_solve shares moduli m0 =
     (let M_prime = prod_list moduli in
      case crt_weights M_prime moduli of
        Inl e \<Rightarrow> Inl e
      | Inr weights \<Rightarrow>
          (case shares of
             [] \<Rightarrow> Inl IndexError
           | sh0 # _ \<Rightarrow>
               (case weighted_sum (replicate (length sh0) 0) shares weights of
                  Inl e \<Rightarrow> Inl e
                | Inr sum_val \<Rightarrow>
                    if m0 = 0 \<and> sum_val \<noteq> [] then Inl ZeroDivisionError
                    else object_astype_uint8 (map (\<lambda>v. (v mod M_prime) mod m0) sum_val))))"

text \<open>The inverse that \<^verbatim>\<open>mod_inverse(M // m, m)\<close> returns (0 where it raises).\<close>

definition crt_inverse :: "int \<Rightarrow> int \<Rightarrow> int" where
  "crt_inverse M m = (case mod_inverse (M div m) m of Inr y \<Rightarrow> y | Inl e \<Rightarrow> 0)"

section \<open>The Arnold scrambler (secret\_sharing/scrambler.py)\<close>

text \<open>
  \<^verbatim>\<open>ArnoldScrambler(a, b, iterations)\<close>; the parameters are Python integers.
\<close>

record scrambler =
  sc_a :: int
  sc_b :: int
  sc_iterations :: int

text \<open>
  The coordinate arrays \<^verbatim>\<open>yy, xx = np.indices((n, n))\<close> are 64-bit integer arrays; their
  products and sums with the Python integers \<open>a\<close>, \<open>b\<close> and \<open>a * b + 1\<close> follow the rules of
  \<open>int64_ok\<close> and \<open>wrap64\<close>: a parameter that does not fit 64 bits raises, and a result
  that does not fit wraps around.
\<close>

text \<open>
  The new coordinates of the pixel at row \<open>yy\<close>, column \<open>xx\<close> in \<^verbatim>\<open>scramble\<close>:
  \<^verbatim>\<open>xx_new = (xx + b * yy) % n\<close>, \<^verbatim>\<open>yy_new = (a * xx + (a * b + 1) * yy) % n\<close>; the result
  is (row, column).
\<close>

definition scramble_coords :: "int \<Rightarrow> int \<Rightarrow> nat \<Rightarrow> nat \<times> nat \<Rightarrow> nat \<times> nat" where
  "scramble_coords a b n p =
     (case p of (yy, xx) \<Rightarrow>
        (nat (np_mod (wrap64 (wrap64 (a * int xx) + wrap64 ((a * b + 1) * int yy))) (int n)),
         nat (np_mod (wrap64 (int xx + wrap64 (b * int yy))) (int n))))"

text \<open>
  The coordinates in \<^verbatim>\<open>unscramble\<close>:
  \<^verbatim>\<open>xx_old = ((a * b + 1) * xx - b * yy) % n\<close>, \<^verbatim>\<open>yy_old = (-a * xx + yy) % n\<close>.
\<close>

definition unscramble_coords :: "int \<Rightarrow> int \<Rightarrow> nat \<Rightarrow> nat \<times> nat \<Rightarrow> nat \<times> nat" where
  "unscramble_coords a b n p =
     (case p of (yy, xx) \<Rightarrow>
        (nat (np_mod (wrap64 (wrap64 ((- a) * int xx) + int yy)) (int n)),
         nat (np_mod (wrap64 (wrap64 ((a * b + 1) * int xx) - wrap64 (b * int yy))) (int n))))"

text \<open>
  The position of element \<open>(y, x, ch)\<close> in the row-major data of an array whose rows have
  \<open>w\<close> pixels of \<open>c\<close> channels.
\<close>

definition flat_index :: "nat \<Rightarrow> nat \<Rightarrow> nat \<times> nat \<times> nat \<Rightarrow> nat" where
  "flat_index w c k = (case k of (y, x, ch) \<Rightarrow> (y * w + x) * c + ch)"

text \<open>
  All \<open>(y, x, ch)\<close> with \<open>y < h\<close>, \<open>x < w\<close> and \<open>ch < c\<close>, in row-major order; the
  coordinates of a square array.
\<close>

definition rect_coords :: "nat \<Rightarrow> nat \<Rightarrow> nat \<Rightarrow> (nat \<times> nat \<times> nat) list" where
  "rect_coords h w c = concat (map (\<lambda>y. concat (map (\<lambda>x. map (\<lambda>ch. (y, x, ch)) [0..<c]) [0..<w])) [0..<h])"

definition all_coords :: "nat \<Rightarrow> nat \<Rightarrow> (nat \<times> nat \<times> nat) list" where
  "all_coords n c = rect_coords n n c"

text \<open>
  One round \<^verbatim>\<open>img_next = np.zeros_like(img_curr); img_next[yy_new, xx_new] = img_curr[yy, xx]\<close>
  on an array whose rows have \<open>cols\<close> pixels: the assignments run over the coordinates
  \<open>yy, xx < n\<close> in row-major order, a later one overwriting an earlier one with the same
  target.
\<close>

definition scatter_round ::
  "(nat \<times> nat \<Rightarrow> nat \<times> nat) \<Rightarrow> nat \<Rightarrow> nat \<Rightarrow> nat \<Rightarrow> int list \<Rightarrow> int list" where
  "scatter_round target n cols c img_curr =
     foldl (\<lambda>img_next k.
              case k of (yy, xx, ch) \<Rightarrow>
                (case target (yy, xx) of (y', x') \<Rightarrow>
                   img_next[flat_index cols c (y', x', ch) := img_curr ! flat_index cols c (yy, xx, ch)]))
           (replicate (length img_curr) 0) (all_coords n c)"

text \<open>
  \<^verbatim>\<open>padded_img = np.zeros((n, n, c)); padded_img[:h, :w, :] = image_array\<close> and the slice
  \<^verbatim>\<open>img[:h, :w, :]\<close> of an array with \<open>rows\<close> rows of \<open>cols\<close> pixels (a slice bound beyond the
  array is cut to it).
\<close>

definition pad_square :: "nat \<Rightarrow> image \<Rightarrow> int list" where
  "pad_square n im =
     (case img_shape im of (h, w, c) \<Rightarrow>
        map (\<lambda>k. case k of (y, x, ch) \<Rightarrow>
                    if y < h \<and> x < w then img_data im ! flat_index w c (y, x, ch) else 0)
            (all_coords n c))"

definition crop :: "nat \<Rightarrow> nat \<Rightarrow> image \<Rightarrow> image" where
  "crop h w im =
     (case img_shape im of (rows, cols, c) \<Rightarrow>
        \<lparr>img_shape = (min h rows, min w cols, c),
         img_data = map (\<lambda>k. img_data im ! flat_index cols c k)
                        (rect_coords (min h rows) (min w cols) c)\<rparr>)"

text \<open>
  \<^verbatim>\<open>scramble(image_array)\<close>: pad to \<open>n \<times> n\<close> with \<open>n = max(h, w)\<close>, run the rounds, return the
  array and \<open>(h, w)\<close>. \<^verbatim>\<open>range(iterations)\<close> is empty for a negative count.
\<close>

definition scramble :: "scrambler \<Rightarrow> image \<Rightarrow> py_error + image \<times> (nat \<times> nat)" where
  "scramble s image_array =
     (case img_shape image_array of (h, w, c) \<Rightarrow>
        let n = max h w;
            a = sc_a s; b = sc_b s
        in if 0 < sc_iterations s \<and> \<not> (int64_ok a \<and> int64_ok b \<and> int64_ok (a * b + 1))
           then Inl OverflowError
           else Inr (\<lparr>img_shape = (n, n, c),
                      img_data = (scatter_round (scramble_coords a b n) n n c ^^ nat (sc_iterations s))
                                   (pad_square n image_array)\<rparr>,
                     (h, w)))"

text \<open>
  \<^verbatim>\<open>unscramble(image_array, original_shape)\<close>: \<open>n\<close> is the number of rows; the array is
  meant to be \<open>n \<times> n\<close>. With fewer than \<open>n\<close> columns the reads \<^verbatim>\<open>img_curr[yy, xx]\<close> leave the
  array (IndexError); with more, the rounds move the first \<open>n\<close> columns only.
\<close>

definition unscramble :: "scrambler \<Rightarrow> image \<Rightarrow> (nat \<times> nat) option \<Rightarrow> py_error + image" where
  "unscramble s image_array original_shape =
     (case img_shape image_array of (n, cols, c) \<Rightarrow>
        let a = sc_a s; b = sc_b s
        in if 0 < sc_iterations s \<and> \<not> (int64_ok (a * b + 1) \<and> int64_ok b \<and> int64_ok (- a))
           then Inl OverflowError
           else if 0 < sc_iterations s \<and> cols < n then Inl IndexError
           else
             (let img_curr = \<lparr>img_shape = (n, cols, c),
                              img_data = (scatter_round (unscramble_coords a b n) n cols c ^^ nat (sc_iterations s))
                                           (img_data image_array)\<rparr>
              in (case original_shape of
                    Some hw \<Rightarrow> Inr (crop (fst hw) (snd hw) img_curr)
                  | None \<Rightarrow> Inr img_curr)))"

text \<open>
  The index arithmetic of both coordinate maps stays within 64 bits for every coordinate
  below \<open>n\<close> (so that no product or sum wraps around).
\<close>

definition index_arithmetic_fits :: "int \<Rightarrow> int \<Rightarrow> nat \<Rightarrow> bool" where
  "index_arithmetic_fits a b n = ((\<bar>a\<bar> + \<bar>b\<bar> + \<bar>a * b + 1\<bar> + 1) * max 1 (int n) < 2 ^ 63)"

text \<open>
  \<open>F\<close> maps the coordinates below \<open>n\<close> into themselves and \<open>G\<close> undoes it there.
\<close>

definition maps_square :: "nat \<Rightarrow> (nat \<times> nat \<Rightarrow> nat \<times> nat) \<Rightarrow> (nat \<times> nat \<Rightarrow> nat \<times> nat) \<Rightarrow> bool" where
  "maps_square n F G =
     (\<forall>y x. y < n \<and> x < n \<longrightarrow> fst (F (y, x)) < n \<and> snd (F (y, x)) < n \<and> G (F (y, x)) = (y, x))"


section \<open>Properties of the challenge derivation\<close>

lemma byte_idx: "unat (b::byte) mod Config_N = unat b"
  using unsigned_less[of b, where 'a=nat] by (simp add: Config_N_def)

lemma byte_and1: "((b::byte) AND 1 \<noteq> 0) = odd (unat b)"
  by (simp add: and_one_eq) (metis even_of_nat odd_iff_mod_2_eq_one of_nat_unat ucast_id)

lemma challenge_scan_length: "length (challenge_scan d c w) = length c"
  by (induction d c w rule: challenge_scan.induct) (auto simp: Let_def)

lemma parity_signed_update:
  assumes "parity_signed c"
  shows "parity_signed (c[unat b := (if (b::byte) AND 1 \<noteq> 0 then 1 else - 1)])"
  unfolding parity_signed_def
proof (intro allI impI)
  fix i
  assume i: "i < length (c[unat b := (if b AND 1 \<noteq> 0 then 1 else - 1)])"
    and nz: "c[unat b := (if b AND 1 \<noteq> 0 then 1 else - 1)] ! i \<noteq> 0"
  show "c[unat b := (if b AND 1 \<noteq> 0 then 1 else - 1)] ! i = (if even i then - 1 else 1)"
  proof (cases "i = unat b")
    case True
    with i show ?thesis by (simp add: byte_and1)
  next
    case False
    with i nz assms show ?thesis by (simp add: parity_signed_def)
  qed
qed

lemma challenge_scan_parity:
  "parity_signed c \<Longrightarrow> parity_signed (challenge_scan d c w)"
proof (induction d c w rule: challenge_scan.induct)
  case (1 c weight)
  then show ?case by simp
next
  case (2 b digest c weight)
  show ?case
  proof (cases "weight \<ge> Config_TAU")
    case True
    with 2 show ?thesis by simp
  next
    case False
    show ?thesis
    proof (cases "c ! unat b = 0")
      case True
      have "parity_signed (c[unat b mod Config_N := (if b AND 1 \<noteq> 0 then 1 else - 1)])"
        using parity_signed_update[OF "2.prems", of b] by (simp add: byte_idx)
      from "2.IH"(1)[OF False refl _ this] True False
      show ?thesis by (simp add: byte_idx)
    next
      case F2: False
      from "2.IH"(2)[OF False refl _ "2.prems"] F2 False show ?thesis
        by (simp add: byte_idx)
    qed
  qed
qed

lemma parity_signed_zero: "parity_signed (replicate n 0)"
  by (simp add: parity_signed_def)








section \<open>Properties of the response aggregation\<close>

lemma add_share_ok:
  assumes "well_shaped rows cols share"
  shows "add_share rows cols acc share =
         Inr (map (\<lambda>l. map (\<lambda>i. acc ! l ! i + share ! l ! i) [0..<cols]) [0..<rows])"
proof -
  have "\<not> list_ex (\<lambda>l. length (share ! l) < cols) [0..<rows]"
    using assms by (auto simp: well_shaped_def list_ex_iff list_all_iff)
  then show ?thesis using assms by (simp add: add_share_def well_shaped_def)
qed

lemma accumulate_shares_sum:
  assumes "list_all (well_shaped rows cols) shares"
  shows "accumulate_shares rows cols acc shares =
         Inr (if shares = [] then acc
              else map (\<lambda>l. map (\<lambda>i. acc ! l ! i + sum_list (map (\<lambda>z. z ! l ! i) shares)) [0..<cols]) [0..<rows])"
  using assms
proof (induction shares arbitrary: acc)
  case Nil
  then show ?case by simp
next
  case (Cons share shares)
  then have ws: "well_shaped rows cols share" and rest: "list_all (well_shaped rows cols) shares"
    by simp_all
  show ?case
  proof (cases "shares = []")
    case True
    then show ?thesis using add_share_ok[OF ws] by simp
  next
    case False
    then show ?thesis
      using add_share_ok[OF ws, of acc] Cons.IH[OF rest] by (simp add: add.assoc)
  qed
qed

lemma aggregate_responses_sum:
  assumes "z_shares \<noteq> []" "0 < rows" "list_all (well_shaped rows cols) z_shares"
  shows "aggregate_responses z_shares = Inr (Some (shares_sum rows cols z_shares))"
proof -
  obtain z0 zs where zs: "z_shares = z0 # zs" using assms(1) by (cases z_shares) auto
  then have w0: "well_shaped rows cols z0" using assms(3) by simp
  then obtain p0 ps where z0: "z0 = p0 # ps" using assms(2) by (cases z0) (auto simp: well_shaped_def)
  have lens: "length z0 = rows" "length p0 = cols"
    using w0 z0 by (auto simp: well_shaped_def)
  have "accumulate_shares rows cols (replicate rows (replicate cols 0)) z_shares =
        Inr (shares_sum rows cols z_shares)"
    using accumulate_shares_sum[OF assms(3)] assms(1) by (simp add: shares_sum_def)
  then show ?thesis using lens zs z0 by (simp add: aggregate_responses_def)
qed

lemma shares_sum_single:
  "well_shaped rows cols z \<Longrightarrow> shares_sum rows cols [z] = z"
  by (auto simp: shares_sum_def well_shaped_def list_all_iff intro!: nth_equalityI)

section \<open>Claims about the challenge and the aggregation\<close>

lemma challenge_scan_same_byte:
  "c ! (unat b) \<noteq> 0 \<Longrightarrow> challenge_scan (replicate n b) c w = c"
  by (induction n arbitrary: w) (auto simp: byte_idx Let_def)

lemma challenge_scan_constant_digest:
  "challenge_scan (replicate (Suc n) b) (replicate Config_N 0) 0 =
   (replicate Config_N 0)[unat b := (if b AND 1 \<noteq> 0 then 1 else - 1)]"
proof -
  have lt: "unat b < Config_N"
    using unsigned_less[of b, where 'a=nat] by (simp add: Config_N_def)
  have "0 < Config_TAU" by (simp add: Config_TAU_def)
  then show ?thesis
    using lt challenge_scan_same_byte[of "(replicate Config_N 0)[unat b := (if b AND 1 \<noteq> 0 then 1 else - 1)]" b n 1]
    by (simp add: byte_idx)
qed

lemma derive_challenge_same:
  "SignatureAggregator_derive_challenge = ThresholdSigner_derive_challenge"
  by (intro ext) (simp add: SignatureAggregator_derive_challenge_def ThresholdSigner_derive_challenge_def)

lemma derive_challenge_Inr:
  assumes "ThresholdSigner_derive_challenge shake_256 message W ts = Inr c"
  obtains w_bytes t_bytes where
    "collect (map (int_to_bytes_little 4 True) (concat W)) = Inr w_bytes"
    "int_to_bytes_little 8 False ts = Inr t_bytes"
    "c = challenge_scan (shake_256 (message @ concat w_bytes @ t_bytes) (Config_N div 2)) (replicate Config_N 0) 0"
  using assms by (auto simp: ThresholdSigner_derive_challenge_def Let_def split: sum.splits)

text \<open>
  Claim C10. In the challenge polynomial returned by \<^verbatim>\<open>_derive_challenge\<close> /
  \<^verbatim>\<open>derive_challenge\<close> (with \<open>N = 256\<close>), whatever the message, the high-bits
  input, the timestamp and the hash, every nonzero coefficient has the sign given by the
  parity of its index: \<open>- 1\<close> at an even index and \<open>1\<close> at an odd index.
\<close>

theorem challenge_sign_follows_index_parity:
  assumes "ThresholdSigner_derive_challenge shake_256 message W ts = Inr c \<or>
           SignatureAggregator_derive_challenge shake_256 message W ts = Inr c"
  shows "length c = Config_N \<and>
         (\<forall>i<Config_N. c ! i \<noteq> 0 \<longrightarrow> c ! i = (if even i then - 1 else 1))"
proof -
  from assms have "ThresholdSigner_derive_challenge shake_256 message W ts = Inr c"
    by (simp add: derive_challenge_same)
  then obtain d where c: "c = challenge_scan d (replicate Config_N 0) 0"
    by (rule derive_challenge_Inr)
  have len: "length c = Config_N" by (simp add: c challenge_scan_length)
  have "parity_signed c"
    unfolding c by (rule challenge_scan_parity) (rule parity_signed_zero)
  with len show ?thesis by (simp add: parity_signed_def)
qed

lemma derive_constant_xof:
  "ThresholdSigner_derive_challenge (constant_xof b) [] [] 1 =
   Inr ((replicate Config_N 0)[unat b := (if b AND 1 \<noteq> 0 then 1 else - 1)])"
proof -
  have "Config_N div 2 = Suc 127" by (simp add: Config_N_def)
  then have "challenge_scan (constant_xof b ([] @ concat [] @ [1, 0, 0, 0, 0, 0, 0, 0]) (Config_N div 2))
               (replicate Config_N 0) 0 =
             (replicate Config_N 0)[unat b := (if b AND 1 \<noteq> 0 then 1 else - 1)]"
    unfolding constant_xof_def by (simp only: challenge_scan_constant_digest)
  moreover have "int_to_bytes_little 8 False 1 = Inr [1, 0, 0, 0, 0, 0, 0, 0]"
    by (simp add: int_to_bytes_little_def upt_rec)
  ultimately show ?thesis
    by (simp add: ThresholdSigner_derive_challenge_def)
qed

text \<open>The statement at a concrete run: a digest of 128 bytes \<open>3\<close> sets coefficient 3 to \<open>1\<close>.\<close>

theorem challenge_sign_follows_index_parity_witness:
  "ThresholdSigner_derive_challenge (constant_xof 3) [] [] 1 = Inr ((replicate Config_N 0)[3 := 1]) \<and>
   length ((replicate Config_N 0)[3 := 1::int]) = Config_N \<and>
   (3::nat) < Config_N \<and> ((replicate Config_N 0)[3 := 1::int]) ! 3 \<noteq> 0 \<and>
   ((replicate Config_N 0)[3 := 1::int]) ! 3 = (if even (3::nat) then - 1 else 1)"
proof -
  have d: "ThresholdSigner_derive_challenge (constant_xof 3) [] [] 1 = Inr ((replicate Config_N 0)[3 := 1])"
    using derive_constant_xof[of 3] by simp
  from challenge_sign_follows_index_parity[OF disjI1, OF d] d show ?thesis
    by (simp add: Config_N_def)
qed






text \<open>
  Claim C5, as amended. \<^verbatim>\<open>aggregate_responses\<close> returns \<^verbatim>\<open>None\<close> for the empty collection
  only; for every non-empty collection of responses of one shape, whatever its size, it
  returns their coefficient-wise sum. It does not know the threshold.
\<close>

theorem aggregate_responses_ignores_threshold:
  "aggregate_responses [] = Inr None \<and>
   (z_shares \<noteq> [] \<and> 0 < rows \<and> list_all (well_shaped rows cols) z_shares \<longrightarrow>
    aggregate_responses z_shares = Inr (Some (shares_sum rows cols z_shares)))"
  using aggregate_responses_sum[of z_shares rows cols] by (simp add: aggregate_responses_def)

lemma well_shaped_replicate: "well_shaped r c (replicate r (replicate c x))"
  by (simp add: well_shaped_def list_all_iff)

text \<open>The amended statement for two responses of \<open>L\<close> polynomials with \<open>N\<close> coefficients.\<close>

theorem aggregate_responses_ignores_threshold_witness:
  "[replicate Config_L (replicate Config_N 1), replicate Config_L (replicate Config_N 2)] \<noteq> [] \<and>
   0 < Config_L \<and>
   list_all (well_shaped Config_L Config_N)
     [replicate Config_L (replicate Config_N 1), replicate Config_L (replicate Config_N 2)] \<and>
   aggregate_responses [replicate Config_L (replicate Config_N 1), replicate Config_L (replicate Config_N 2)] =
     Inr (Some (shares_sum Config_L Config_N
        [replicate Config_L (replicate Config_N 1), replicate Config_L (replicate Config_N 2)]))"
  using aggregate_responses_ignores_threshold[of
      "[replicate Config_L (replicate Config_N 1), replicate Config_L (replicate Config_N 2)]"
      Config_L Config_N]
  by (simp add: well_shaped_replicate Config_L_def)

text \<open>
  Claim C5 as stated fails: one accepted response is fewer than \<open>t = 3\<close>, and the
  aggregation returns a value (the response itself) instead of failing.
\<close>

theorem aggregate_below_threshold_counterexample:
  "length [replicate Config_L (replicate Config_N (1::int))] < Config_T_THRESHOLD \<and>
   aggregate_responses [replicate Config_L (replicate Config_N 1)] =
     Inr (Some (replicate Config_L (replicate Config_N 1)))"
proof -
  have "aggregate_responses [replicate Config_L (replicate Config_N 1)] =
        Inr (Some (shares_sum Config_L Config_N [replicate Config_L (replicate Config_N 1)]))"
    by (rule aggregate_responses_sum) (simp_all add: well_shaped_replicate Config_L_def)
  then show ?thesis
    by (simp add: shares_sum_single well_shaped_replicate Config_T_THRESHOLD_def)
qed

section \<open>Properties of the CRT split and reconstruction\<close>

lemma extended_gcd_bezout:
  "extended_gcd a b = (g, x, y) \<Longrightarrow> a * x + b * y = g"
proof (induction a b arbitrary: g x y rule: extended_gcd.induct)
  case (1 a b)
  show ?case
  proof (cases "a = 0")
    case True
    with "1.prems" show ?thesis by (simp add: extended_gcd.simps)
  next
    case False
    obtain g' y' x' where rec: "extended_gcd (b mod a) a = (g', y', x')"
      by (cases "extended_gcd (b mod a) a") auto
    from "1.IH"[OF False rec] have ih: "(b mod a) * y' + a * x' = g'" .
    from "1.prems" False rec have g: "g = g'" and x: "x = x' - (b div a) * y'" and y: "y = y'"
      by (auto simp: extended_gcd.simps[of a b])
    have "a * x + b * y = a * x' + (b - a * (b div a)) * y'"
      unfolding x y by (simp add: algebra_simps)
    also have "b - a * (b div a) = b mod a"
      by (simp add: minus_mult_div_eq_mod)
    finally show ?thesis using ih g by (simp add: add.commute)
  qed
qed

lemma extended_gcd_fst:
  "0 \<le> a \<Longrightarrow> 0 \<le> b \<Longrightarrow> fst (extended_gcd a b) = gcd a b"
proof (induction a b rule: extended_gcd.induct)
  case (1 a b)
  show ?case
  proof (cases "a = 0")
    case True
    with "1.prems" show ?thesis by (simp add: extended_gcd.simps)
  next
    case False
    with "1.prems" have pos: "0 < a" by simp
    then have "0 \<le> b mod a" by simp
    from "1.IH"[OF False this "1.prems"(1)]
    have "fst (extended_gcd (b mod a) a) = gcd (b mod a) a" .
    also have "\<dots> = gcd a b" by (metis gcd.commute gcd_red_int)
    finally show ?thesis using False
      by (subst extended_gcd.simps) (simp add: split_beta)
  qed
qed

lemma mod_inverse_coprime:
  assumes "0 \<le> a" "1 < m" "coprime a m"
  shows "\<exists>y. mod_inverse a m = Inr y \<and> (a * y) mod m = 1"
proof -
  obtain g x y where e: "extended_gcd a m = (g, x, y)"
    by (cases "extended_gcd a m") auto
  have "g = gcd a m" using extended_gcd_fst[of a m] assms e by simp
  then have g: "g = 1" using assms(3) by simp
  from extended_gcd_bezout[OF e] g have "a * x + m * y = 1" by simp
  then have "(a * x + m * y) mod m = 1 mod m" by simp
  then have "(a * x) mod m = 1" using assms(2) by simp
  then have "(a * (x mod m)) mod m = 1" by (simp add: mod_mult_right_eq)
  moreover have "mod_inverse a m = Inr (x mod m)"
    using e g assms(2) by (simp add: mod_inverse_def)
  ultimately show ?thesis by blast
qed

lemma all_pairs_coprime_distinct:
  "all_pairs_coprime ms \<Longrightarrow> \<forall>m\<in>set ms. 1 < m \<Longrightarrow> distinct ms"
proof (induction ms)
  case Nil
  then show ?case by simp
next
  case (Cons m ms)
  have "m \<notin> set ms"
  proof
    assume "m \<in> set ms"
    with Cons.prems(1) have "gcd m m = 1" by (auto simp: list_all_iff)
    moreover have "1 < m" using Cons.prems(2) by simp
    ultimately show False by simp
  qed
  with Cons show ?case by simp
qed

lemma all_pairs_coprime_nth:
  "all_pairs_coprime ms \<Longrightarrow> i < length ms \<Longrightarrow> j < length ms \<Longrightarrow> i \<noteq> j \<Longrightarrow>
   gcd (ms ! i) (ms ! j) = 1"
proof (induction ms arbitrary: i j)
  case Nil
  then show ?case by simp
next
  case (Cons m ms)
  show ?case
  proof (cases i)
    case 0
    with Cons.prems obtain j' where "j = Suc j'" by (cases j) auto
    with 0 Cons.prems show ?thesis by (simp add: list_all_iff)
  next
    case (Suc i')
    show ?thesis
    proof (cases j)
      case 0
      with Suc Cons.prems have "gcd m (ms ! i') = 1" by (auto simp: list_all_iff)
      with 0 Suc show ?thesis by (simp add: gcd.commute)
    next
      case (Suc j')
      with \<open>i = Suc i'\<close> Cons show ?thesis by simp
    qed
  qed
qed

lemma all_pairs_coprime_select:
  assumes "all_pairs_coprime ms" "distinct idxs" "\<forall>i\<in>set idxs. i < length ms"
  shows "all_pairs_coprime (map (\<lambda>i. ms ! i) idxs)"
  using assms(2,3)
proof (induction idxs)
  case Nil
  then show ?case by simp
next
  case (Cons i idxs)
  have "gcd (ms ! i) (ms ! k) = 1" if "k \<in> set idxs" for k
    using that Cons.prems all_pairs_coprime_nth[OF assms(1), of i k] by auto
  with Cons show ?case by (simp add: list_all_iff)
qed

lemma elem_dvd_prod_list: "(m::int) \<in> set ms \<Longrightarrow> m dvd prod_list ms"
  by (induction ms) auto

lemma prod_list_coprime_dvd:
  "all_pairs_coprime ms \<Longrightarrow> \<forall>m\<in>set ms. m dvd x \<Longrightarrow> prod_list ms dvd x"
proof (induction ms)
  case Nil
  then show ?case by simp
next
  case (Cons m ms)
  have "coprime m (prod_list ms)"
    using Cons.prems(1) by (intro prod_list_coprime_right) (simp add: list_all_iff coprime_iff_gcd_eq_1)
  moreover have "prod_list ms dvd x" using Cons by simp
  moreover have "m dvd x" using Cons.prems(2) by simp
  ultimately show ?case by (simp add: divides_mult)
qed

lemma prod_list_ge:
  "\<forall>m\<in>set ms. (1::int) \<le> m \<Longrightarrow> k \<in> set ms \<Longrightarrow> k \<le> prod_list ms"
proof (induction ms)
  case Nil
  then show ?case by simp
next
  case (Cons m ms)
  have "\<forall>m\<in>set ms. 1 \<le> m" using Cons.prems(1) by simp
  then have p1: "1 \<le> prod_list ms"
  proof (induction ms)
    case Nil
    then show ?case by simp
  next
    case (Cons a as)
    then have "1 \<le> a" "1 \<le> prod_list as" by simp_all
    then have "1 * 1 \<le> a * prod_list as" by (intro mult_mono) auto
    then show ?case by simp
  qed
  show ?case
  proof (cases "k = m")
    case True
    have "m * 1 \<le> m * prod_list ms" using p1 Cons.prems(1) by (intro mult_left_mono) auto
    with True show ?thesis by simp
  next
    case False
    with Cons have "k \<le> prod_list ms" by simp
    moreover have "1 * prod_list ms \<le> m * prod_list ms"
      using p1 Cons.prems(1) by (intro mult_right_mono) auto
    ultimately show ?thesis by simp
  qed
qed

lemma sum_mod_count:
  fixes w :: "int \<Rightarrow> int"
  assumes "\<forall>c\<in>set cs. (w c) mod m = (if c = m then 1 else 0) mod m"
  shows "(sum_list (map w cs)) mod m = (int (count_list cs m)) mod m"
  using assms
proof (induction cs)
  case Nil
  then show ?case by simp
next
  case (Cons c cs)
  have "(w c + sum_list (map w cs)) mod m = ((w c) mod m + (sum_list (map w cs)) mod m) mod m"
    by (simp add: mod_add_eq)
  also have "\<dots> = ((if c = m then 1 else 0) mod m + (int (count_list cs m)) mod m) mod m"
    using Cons by simp
  also have "\<dots> = ((if c = m then 1 else 0) + int (count_list cs m)) mod m"
    by (simp add: mod_add_eq)
  finally show ?case by (simp add: add.commute)
qed

lemma count_list_distinct: "distinct xs \<Longrightarrow> x \<in> set xs \<Longrightarrow> count_list xs x = 1"
  by (induction xs) auto

lemma crt_weight_exists:
  assumes pc: "all_pairs_coprime cs" and big: "\<forall>c\<in>set cs. 1 < c" and m: "m \<in> set cs"
  shows "\<exists>y. mod_inverse (prod_list cs div m) m = Inr y \<and> ((prod_list cs div m) * y) mod m = 1"
proof -
  have dist: "distinct cs" using pc big by (rule all_pairs_coprime_distinct)
  obtain xs ys where split: "cs = xs @ m # ys" using m by (meson split_list)
  have mpos: "1 < m" using big m by simp
  have prod: "prod_list cs = m * (prod_list xs * prod_list ys)" by (simp add: split)
  then have div: "prod_list cs div m = prod_list xs * prod_list ys" using mpos by simp
  have others: "\<forall>c\<in>set (xs @ ys). coprime c m"
  proof
    fix c assume c: "c \<in> set (xs @ ys)"
    then have cin: "c \<in> set cs" by (auto simp: split)
    have "c \<noteq> m" using dist c by (auto simp: split)
    obtain i where i: "i < length cs" "cs ! i = c" using cin by (auto simp: in_set_conv_nth)
    obtain j where j: "j < length cs" "cs ! j = m" using m by (auto simp: in_set_conv_nth)
    have "i \<noteq> j" using i j \<open>c \<noteq> m\<close> by auto
    from all_pairs_coprime_nth[OF pc i(1) j(1) this] i j show "coprime c m"
      by (simp add: coprime_iff_gcd_eq_1)
  qed
  have "coprime (prod_list (xs @ ys)) m"
    by (rule prod_list_coprime_left) (use others in auto)
  then have cop: "coprime (prod_list cs div m) m" by (simp add: div)
  have "\<forall>c\<in>set (xs @ ys). 0 \<le> c"
  proof
    fix c assume "c \<in> set (xs @ ys)"
    then have "c \<in> set cs" by (auto simp: split)
    with big have "1 < c" by blast
    then show "0 \<le> c" by simp
  qed
  then have "0 \<le> prod_list (xs @ ys)" by (intro prod_list_nonneg) auto
  then have nonneg: "0 \<le> prod_list cs div m" by (simp add: div)
  from mod_inverse_coprime[OF nonneg mpos cop] show ?thesis .
qed

lemma crt_other_weight:
  assumes pc: "all_pairs_coprime cs" and big: "\<forall>c\<in>set cs. 1 < c"
    and m: "m \<in> set cs" and c: "c \<in> set cs" and ne: "c \<noteq> m"
  shows "m dvd (prod_list cs div c)"
proof -
  obtain i where i: "i < length cs" "cs ! i = c" using c by (auto simp: in_set_conv_nth)
  obtain j where j: "j < length cs" "cs ! j = m" using m by (auto simp: in_set_conv_nth)
  have "i \<noteq> j" using i j ne by auto
  from all_pairs_coprime_nth[OF pc j(1) i(1)] this i j have cop: "coprime m c"
    by (auto simp: coprime_iff_gcd_eq_1)
  have "c dvd prod_list cs" using c by (rule elem_dvd_prod_list)
  then have eq: "prod_list cs = c * (prod_list cs div c)" by simp
  have "m dvd prod_list cs" using m by (rule elem_dvd_prod_list)
  then have "m dvd c * (prod_list cs div c)" using eq by simp
  with cop show ?thesis by (simp add: coprime_dvd_mult_right_iff)
qed

lemma crt_weights_sum:
  fixes inv :: "int \<Rightarrow> int"
  assumes pc: "all_pairs_coprime cs" and big: "\<forall>c\<in>set cs. 1 < c" and ne: "cs \<noteq> []"
    and inv: "\<forall>c\<in>set cs. ((prod_list cs div c) * inv c) mod c = 1"
  shows "(sum_list (map (\<lambda>c. (prod_list cs div c) * inv c) cs)) mod (prod_list cs) = 1"
proof -
  let ?M = "prod_list cs"
  let ?w = "\<lambda>c. (?M div c) * inv c"
  let ?W = "sum_list (map ?w cs)"
  have dist: "distinct cs" using pc big by (rule all_pairs_coprime_distinct)
  have each: "m dvd (?W - 1)" if m: "m \<in> set cs" for m
  proof -
    have mpos: "1 < m" using big m by simp
    have "\<forall>c\<in>set cs. (?w c) mod m = (if c = m then 1 else 0) mod m"
    proof
      fix c assume c: "c \<in> set cs"
      show "(?w c) mod m = (if c = m then 1 else 0) mod m"
      proof (cases "c = m")
        case True
        with inv c mpos show ?thesis by simp
      next
        case False
        from crt_other_weight[OF pc big m c False] have "m dvd ?w c" by simp
        with False show ?thesis by simp
      qed
    qed
    then have "?W mod m = (int (count_list cs m)) mod m" by (rule sum_mod_count)
    also have "count_list cs m = 1" using dist m by (rule count_list_distinct)
    finally have "?W mod m = 1 mod m" by simp
    then show ?thesis by (simp add: mod_eq_dvd_iff)
  qed
  have "?M dvd (?W - 1)" using pc each by (intro prod_list_coprime_dvd) auto
  then have "?W mod ?M = 1 mod ?M" by (simp add: mod_eq_dvd_iff)
  moreover have "1 < ?M"
  proof -
    obtain c where c: "c \<in> set cs" using ne by (cases cs) auto
    have "c \<le> ?M" using big c by (intro prod_list_ge) (auto intro: less_imp_le)
    with big c show ?thesis by fastforce
  qed
  ultimately show ?thesis by simp
qed

lemma map2_add_zero:
  "length acc = length pix \<Longrightarrow> map2 (\<lambda>a p. a) acc pix = acc"
  by (intro nth_equalityI) simp_all

lemma crt_accumulate_same_data:
  assumes "\<forall>s\<in>set shares. sp_data s = pix \<and> sp_modulus s \<noteq> 0 \<and>
             (\<exists>y. mod_inverse (M div sp_modulus s) (sp_modulus s) = Inr y)"
    and "length acc = length pix"
  shows "crt_accumulate M acc shares =
         Inr (map2 (\<lambda>a p. a + p * sum_list (map (\<lambda>s. (M div sp_modulus s) * crt_inverse M (sp_modulus s)) shares))
                acc pix)"
  using assms
proof (induction shares arbitrary: acc)
  case Nil
  then show ?case by (simp add: map2_add_zero)
next
  case (Cons s shares)
  let ?mi = "sp_modulus s"
  let ?Mi = "M div ?mi"
  let ?yi = "crt_inverse M ?mi"
  from Cons.prems(1) have d: "sp_data s = pix" and nz: "?mi \<noteq> 0"
    and inv: "mod_inverse ?Mi ?mi = Inr ?yi"
    by (auto simp: crt_inverse_def)
  let ?acc' = "map2 (+) acc (map (\<lambda>d. d * ?Mi * ?yi) pix)"
  have add: "np_iadd acc (map (\<lambda>d. d * ?Mi * ?yi) (sp_data s)) = Inr ?acc'"
    using Cons.prems(2) d by (simp add: np_iadd_def)
  have len': "length ?acc' = length pix" using Cons.prems(2) by simp
  have rest: "\<forall>s\<in>set shares. sp_data s = pix \<and> sp_modulus s \<noteq> 0 \<and>
             (\<exists>y. mod_inverse (M div sp_modulus s) (sp_modulus s) = Inr y)"
    using Cons.prems(1) by simp
  have step: "crt_accumulate M acc (s # shares) = crt_accumulate M ?acc' shares"
    using nz inv add by (simp add: Let_def)
  have "map2 (\<lambda>a p. a + p * sum_list (map (\<lambda>s. (M div sp_modulus s) * crt_inverse M (sp_modulus s)) shares)) ?acc' pix =
        map2 (\<lambda>a p. a + p * sum_list (map (\<lambda>s. (M div sp_modulus s) * crt_inverse M (sp_modulus s)) (s # shares))) acc pix"
    using Cons.prems(2) by (intro nth_equalityI) (simp_all add: algebra_simps)
  with Cons.IH[OF rest len'] step show ?case by simp
qed

lemma wrap64_id: "int64_ok x \<Longrightarrow> wrap64 x = x"
  by (simp add: int64_ok_def wrap64_def)

lemma split_data_is_pixels:
  assumes "255 < m" "\<forall>p\<in>set pix. 0 \<le> p \<and> p \<le> 255"
  shows "map (\<lambda>p. np_mod (wrap64 p) m mod 65536) pix = pix"
proof (rule map_idI)
  fix p assume "p \<in> set pix"
  with assms have p: "0 \<le> p" "p < m" "p < 65536" by auto
  then have "wrap64 p = p" by (intro wrap64_id) (simp add: int64_ok_def)
  then show "np_mod (wrap64 p) m mod 65536 = p" using p assms(1) by (simp add: np_mod_def)
qed

lemma split_fitting_moduli:
  assumes fit: "\<forall>m\<in>set (spl_moduli sp). int64_ok m"
    and big: "\<forall>m\<in>set (spl_moduli sp). 255 < m"
    and pix: "\<forall>p\<in>set (img_data im). 0 \<le> p \<and> p \<le> 255"
  shows "split sp im =
         Inr (map (\<lambda>i. \<lparr>sp_index = i, sp_modulus = spl_moduli sp ! i,
                         sp_data = img_data im, sp_shape = img_shape im\<rparr>)
                [0..<length (spl_moduli sp)])"
proof -
  have no: "\<not> list_ex (\<lambda>m. \<not> int64_ok m) (spl_moduli sp)"
    using fit by (simp add: list_ex_iff)
  have "map (\<lambda>(i, m). \<lparr>sp_index = i, sp_modulus = m,
                          sp_data = map (\<lambda>p. np_mod (wrap64 p) m mod 65536) (img_data im),
                          sp_shape = img_shape im\<rparr>) (enumerate 0 (spl_moduli sp)) =
        map (\<lambda>i. \<lparr>sp_index = i, sp_modulus = spl_moduli sp ! i,
                    sp_data = img_data im, sp_shape = img_shape im\<rparr>)
            [0..<length (spl_moduli sp)]"
  proof (rule nth_equalityI)
    show "length (map (\<lambda>(i, m). \<lparr>sp_index = i, sp_modulus = m,
                          sp_data = map (\<lambda>p. np_mod (wrap64 p) m mod 65536) (img_data im),
                          sp_shape = img_shape im\<rparr>) (enumerate 0 (spl_moduli sp))) =
          length (map (\<lambda>i. \<lparr>sp_index = i, sp_modulus = spl_moduli sp ! i,
                    sp_data = img_data im, sp_shape = img_shape im\<rparr>)
            [0..<length (spl_moduli sp)])" by simp
  next
    fix i assume "i < length (map (\<lambda>(i, m). \<lparr>sp_index = i, sp_modulus = m,
                          sp_data = map (\<lambda>p. np_mod (wrap64 p) m mod 65536) (img_data im),
                          sp_shape = img_shape im\<rparr>) (enumerate 0 (spl_moduli sp)))"
    then have i: "i < length (spl_moduli sp)" by simp
    then have "255 < spl_moduli sp ! i" using big by simp
    from split_data_is_pixels[OF this pix] i
    show "map (\<lambda>(i, m). \<lparr>sp_index = i, sp_modulus = m,
                          sp_data = map (\<lambda>p. np_mod (wrap64 p) m mod 65536) (img_data im),
                          sp_shape = img_shape im\<rparr>) (enumerate 0 (spl_moduli sp)) ! i =
          map (\<lambda>i. \<lparr>sp_index = i, sp_modulus = spl_moduli sp ! i,
                    sp_data = img_data im, sp_shape = img_shape im\<rparr>)
            [0..<length (spl_moduli sp)] ! i"
      by (simp add: nth_enumerate_eq)
  qed
  with no show ?thesis by (simp add: split_def)
qed

lemma init_moduli:
  assumes "ImageCRTSplitter_init n t moduli = Inr sp"
  shows "length (spl_moduli sp) = n" "all_pairs_coprime (spl_moduli sp)"
    "\<forall>m\<in>set (spl_moduli sp). 255 < m" "spl_moduli sp = sort moduli"
  using assms
  by (auto simp: ImageCRTSplitter_init_def validate_moduli_def Let_def list_ex_iff not_le
      split: sum.splits if_splits)


lemma reconstruct_Cons:
  "reconstruct (s0 # rest) =
     (case crt_accumulate (prod_list (map sp_modulus (s0 # rest)))
             (replicate (case sp_shape s0 of (h, w, c) \<Rightarrow> h * w * c) 0) (s0 # rest) of
        Inl e \<Rightarrow> Inl e
      | Inr acc \<Rightarrow>
          (case object_astype_uint8 (map (\<lambda>v. v mod prod_list (map sp_modulus (s0 # rest))) acc) of
             Inl e \<Rightarrow> Inl e
           | Inr result_flat \<Rightarrow> Inr (Some \<lparr>img_shape = sp_shape s0, img_data = result_flat\<rparr>)))"
  by (simp only: reconstruct_def Let_def list.case)

lemma reconstruct_selected_shares:
  assumes pc: "all_pairs_coprime ms" and big: "\<forall>m\<in>set ms. 255 < m"
    and pix: "\<forall>p\<in>set (img_data im). 0 \<le> p \<and> p \<le> 255" and wf: "image_wf im"
    and idxs: "idxs \<noteq> []" "distinct idxs" "\<forall>i\<in>set idxs. i < length ms"
    and shares: "shares = map (\<lambda>i. \<lparr>sp_index = i, sp_modulus = ms ! i, sp_data = img_data im,
                                    sp_shape = img_shape im\<rparr>) idxs"
  shows "reconstruct shares = Inr (Some im)"
proof -
  let ?cs = "map (\<lambda>i. ms ! i) idxs"
  let ?M = "prod_list ?cs"
  have cs: "map sp_modulus shares = ?cs" by (simp add: shares comp_def)
  have pcs: "all_pairs_coprime ?cs" using pc idxs(2,3) by (rule all_pairs_coprime_select)
  have bigcs: "\<forall>c\<in>set ?cs. 255 < c" using big idxs(3) by auto
  then have big1: "\<forall>c\<in>set ?cs. 1 < c" by fastforce
  have ne: "?cs \<noteq> []" using idxs(1) by simp
  have invs: "\<forall>c\<in>set ?cs. mod_inverse (?M div c) c = Inr (crt_inverse ?M c) \<and>
                ((?M div c) * crt_inverse ?M c) mod c = 1"
  proof
    fix c assume "c \<in> set ?cs"
    from crt_weight_exists[OF pcs big1 this] show
      "mod_inverse (?M div c) c = Inr (crt_inverse ?M c) \<and> ((?M div c) * crt_inverse ?M c) mod c = 1"
      by (auto simp: crt_inverse_def)
  qed
  let ?W = "sum_list (map (\<lambda>c. (?M div c) * crt_inverse ?M c) ?cs)"
  have W: "?W mod ?M = 1"
    using invs by (intro crt_weights_sum[OF pcs big1 ne]) blast
  have Mbig: "255 < ?M"
  proof -
    obtain c where c: "c \<in> set ?cs" using ne by (cases ?cs) auto
    have "c \<le> ?M" using big1 c by (intro prod_list_ge) (auto intro: less_imp_le)
    with bigcs c show ?thesis by fastforce
  qed
  obtain h w c where shp: "img_shape im = (h, w, c)" by (cases "img_shape im") auto
  have len: "length (img_data im) = h * w * c" using wf shp by (simp add: image_wf_def)
  obtain i0 rest where i0: "idxs = i0 # rest" using idxs(1) by (cases idxs) auto
  have pre: "\<forall>s\<in>set shares. sp_data s = img_data im \<and> sp_modulus s \<noteq> 0 \<and>
             (\<exists>y. mod_inverse (?M div sp_modulus s) (sp_modulus s) = Inr y)"
  proof
    fix s assume "s \<in> set shares"
    then obtain i where i: "i \<in> set idxs" and s: "s = \<lparr>sp_index = i, sp_modulus = ms ! i,
        sp_data = img_data im, sp_shape = img_shape im\<rparr>"
      by (auto simp: shares)
    have "ms ! i \<in> set ?cs" using i by simp
    with invs bigcs have "mod_inverse (?M div (ms ! i)) (ms ! i) = Inr (crt_inverse ?M (ms ! i))"
      and "255 < ms ! i" by blast+
    then show "sp_data s = img_data im \<and> sp_modulus s \<noteq> 0 \<and>
             (\<exists>y. mod_inverse (?M div sp_modulus s) (sp_modulus s) = Inr y)"
      by (simp add: s)
  qed
  have sumeq: "sum_list (map (\<lambda>s. (?M div sp_modulus s) * crt_inverse ?M (sp_modulus s)) shares) = ?W"
    by (simp add: shares comp_def)
  have acc: "crt_accumulate ?M (replicate (h * w * c) 0) shares =
        Inr (map2 (\<lambda>a p. a + p * ?W) (replicate (h * w * c) 0) (img_data im))"
    using crt_accumulate_same_data[OF pre, of "replicate (h * w * c) 0"] len sumeq by simp
  have res: "map (\<lambda>v. v mod ?M)
               (map2 (\<lambda>a p. a + p * ?W) (replicate (h * w * c) 0) (img_data im)) = img_data im"
  proof (rule nth_equalityI)
    show "length (map (\<lambda>v. v mod ?M)
               (map2 (\<lambda>a p. a + p * ?W) (replicate (h * w * c) 0) (img_data im))) = length (img_data im)"
      using len by simp
  next
    fix k assume "k < length (map (\<lambda>v. v mod ?M)
               (map2 (\<lambda>a p. a + p * ?W) (replicate (h * w * c) 0) (img_data im)))"
    then have k: "k < length (img_data im)" using len by simp
    let ?p = "img_data im ! k"
    have p: "0 \<le> ?p" "?p \<le> 255" using pix k by auto
    have "(?p * ?W) mod ?M = (?p * (?W mod ?M)) mod ?M" by (simp add: mod_mult_right_eq)
    also have "\<dots> = ?p mod ?M" using W by simp
    also have "\<dots> = ?p" using p Mbig by simp
    finally have "(?p * ?W) mod ?M = ?p" .
    then show "map (\<lambda>v. v mod ?M)
               (map2 (\<lambda>a p. a + p * ?W) (replicate (h * w * c) 0) (img_data im)) ! k = img_data im ! k"
      using k len p by simp
  qed
  have cast: "object_astype_uint8 (img_data im) = Inr (img_data im)"
    using pix by (simp add: object_astype_uint8_def list_all_iff)
  obtain s0 srest where sh: "shares = s0 # srest" and s0: "sp_shape s0 = (h, w, c)"
    using i0 shp by (auto simp: shares)
  have "reconstruct shares = Inr (Some \<lparr>img_shape = img_shape im, img_data = img_data im\<rparr>)"
    unfolding sh reconstruct_Cons
    unfolding sh[symmetric] cs s0 using acc res cast shp by simp
  then show ?thesis by simp
qed

lemma crt_weights_ok:
  assumes "\<forall>c\<in>set cs. c \<noteq> 0 \<and> (\<exists>y. mod_inverse (M div c) c = Inr y)"
  shows "crt_weights M cs = Inr (map (\<lambda>c. (M div c) * crt_inverse M c) cs)"
  using assms by (induction cs) (auto simp: crt_inverse_def)

lemma weighted_sum_same_data:
  assumes "length shares = length ws" "\<forall>sh\<in>set shares. sh = pix" "length acc = length pix"
  shows "weighted_sum acc shares ws = Inr (map2 (\<lambda>a p. a + p * sum_list ws) acc pix)"
  using assms
proof (induction acc shares ws rule: weighted_sum.induct)
  case (1 sum_val shares)
  then show ?case by (simp add: map2_add_zero)
next
  case (2 sum_val w ws)
  then show ?case by simp
next
  case (3 sum_val sh shares w ws)
  let ?acc' = "map2 (+) sum_val (map (\<lambda>d. d * w) pix)"
  have sh: "sh = pix" using "3.prems"(2) by simp
  have add: "np_iadd sum_val (map (\<lambda>d. d * w) sh) = Inr ?acc'"
    using "3.prems"(3) sh by (simp add: np_iadd_def)
  have len': "length ?acc' = length pix" using "3.prems"(3) by simp
  have ih: "weighted_sum ?acc' shares ws = Inr (map2 (\<lambda>a p. a + p * sum_list ws) ?acc' pix)"
    using "3.IH"[OF add _ _ len'] "3.prems" by simp
  have "map2 (\<lambda>a p. a + p * sum_list ws) ?acc' pix = map2 (\<lambda>a p. a + p * sum_list (w # ws)) sum_val pix"
    using "3.prems"(3) by (intro nth_equalityI) (simp_all add: algebra_simps)
  with ih add show ?case by simp
qed

lemma batch_crt_solve_selected:
  assumes pc: "all_pairs_coprime ms" and big: "\<forall>m\<in>set ms. 255 < m"
    and pix: "\<forall>p\<in>set pixels. 0 \<le> p \<and> p \<le> 255"
    and idxs: "idxs \<noteq> []" "distinct idxs" "\<forall>i\<in>set idxs. i < length ms"
    and m0: "255 < m0"
  shows "batch_crt_solve (map (\<lambda>i. pixels) idxs) (map (\<lambda>i. ms ! i) idxs) m0 = Inr pixels"
proof -
  let ?cs = "map (\<lambda>i. ms ! i) idxs"
  let ?M = "prod_list ?cs"
  have pcs: "all_pairs_coprime ?cs" using pc idxs(2,3) by (rule all_pairs_coprime_select)
  have bigcs: "\<forall>c\<in>set ?cs. 255 < c" using big idxs(3) by auto
  then have big1: "\<forall>c\<in>set ?cs. 1 < c" by fastforce
  have ne: "?cs \<noteq> []" using idxs(1) by simp
  have invs: "\<forall>c\<in>set ?cs. mod_inverse (?M div c) c = Inr (crt_inverse ?M c) \<and>
                ((?M div c) * crt_inverse ?M c) mod c = 1"
  proof
    fix c assume "c \<in> set ?cs"
    from crt_weight_exists[OF pcs big1 this] show
      "mod_inverse (?M div c) c = Inr (crt_inverse ?M c) \<and> ((?M div c) * crt_inverse ?M c) mod c = 1"
      by (auto simp: crt_inverse_def)
  qed
  let ?ws = "map (\<lambda>c. (?M div c) * crt_inverse ?M c) ?cs"
  let ?W = "sum_list ?ws"
  have W: "?W mod ?M = 1"
    using invs by (intro crt_weights_sum[OF pcs big1 ne]) blast
  have Mbig: "255 < ?M"
  proof -
    obtain c where c: "c \<in> set ?cs" using ne by (cases ?cs) auto
    have "c \<le> ?M" using big1 c by (intro prod_list_ge) (auto intro: less_imp_le)
    with bigcs c show ?thesis by fastforce
  qed
  have weights: "crt_weights ?M ?cs = Inr ?ws"
  proof (rule crt_weights_ok, rule ballI)
    fix c assume c: "c \<in> set ?cs"
    with invs bigcs have "mod_inverse (?M div c) c = Inr (crt_inverse ?M c)" "255 < c" by blast+
    then show "c \<noteq> 0 \<and> (\<exists>y. mod_inverse (?M div c) c = Inr y)" by auto
  qed
  obtain i0 rest where i0: "idxs = i0 # rest" using idxs(1) by (cases idxs) auto
  have sum: "weighted_sum (replicate (length pixels) 0) (map (\<lambda>i. pixels) idxs) ?ws =
        Inr (map2 (\<lambda>a p. a + p * ?W) (replicate (length pixels) 0) pixels)"
    by (rule weighted_sum_same_data) simp_all
  have res: "map (\<lambda>v. (v mod ?M) mod m0)
               (map2 (\<lambda>a p. a + p * ?W) (replicate (length pixels) 0) pixels) = pixels"
  proof (rule nth_equalityI)
    show "length (map (\<lambda>v. (v mod ?M) mod m0)
               (map2 (\<lambda>a p. a + p * ?W) (replicate (length pixels) 0) pixels)) = length pixels"
      by simp
  next
    fix k assume "k < length (map (\<lambda>v. (v mod ?M) mod m0)
               (map2 (\<lambda>a p. a + p * ?W) (replicate (length pixels) 0) pixels))"
    then have k: "k < length pixels" by simp
    let ?p = "pixels ! k"
    have p: "0 \<le> ?p" "?p \<le> 255" using pix k by auto
    have "(?p * ?W) mod ?M = (?p * (?W mod ?M)) mod ?M" by (simp add: mod_mult_right_eq)
    also have "\<dots> = ?p mod ?M" using W by simp
    also have "\<dots> = ?p" using p Mbig by simp
    finally have "(?p * ?W) mod ?M = ?p" .
    then show "map (\<lambda>v. (v mod ?M) mod m0)
               (map2 (\<lambda>a p. a + p * ?W) (replicate (length pixels) 0) pixels) ! k = pixels ! k"
      using k p m0 by simp
  qed
  have cast: "object_astype_uint8 pixels = Inr pixels"
    using pix by (simp add: object_astype_uint8_def list_all_iff)
  have shares0: "map (\<lambda>i. pixels) idxs = pixels # map (\<lambda>i. pixels) rest" by (simp add: i0)
  have "batch_crt_solve (map (\<lambda>i. pixels) idxs) ?cs m0 =
        (case weighted_sum (replicate (length pixels) 0) (map (\<lambda>i. pixels) idxs) ?ws of
           Inl e \<Rightarrow> Inl e
         | Inr sum_val \<Rightarrow>
             if m0 = 0 \<and> sum_val \<noteq> [] then Inl ZeroDivisionError
             else object_astype_uint8 (map (\<lambda>v. (v mod ?M) mod m0) sum_val))"
    unfolding batch_crt_solve_def Let_def weights
    by (subst (1) shares0) (simp only: list.case sum.case)
  also have "\<dots> = Inr pixels"
    unfolding sum using res cast m0 by simp
  finally show ?thesis .
qed

text \<open>
  Claim C1, as amended. For every image whose pixel values lie in \<open>[0, 255]\<close> and every
  moduli list the splitter accepts (pairwise coprime, each modulus above 255) whose
  moduli are below \<open>2\<^sup>6\<^sup>3\<close>, \<^verbatim>\<open>ImageCRTSplitter.split\<close> returns \<open>n\<close> shares, and recombining
  any non-empty selection of distinct shares (in particular any \<open>t\<close> of the \<open>n\<close>) by the
  CRT weighted sum recovers the image exactly: with \<^verbatim>\<open>reconstruct\<close> (the sum modulo \<open>M\<close>)
  and with \<^verbatim>\<open>batch_crt_solve\<close> (reduced once more modulo a secret modulus above 255).
\<close>

theorem crt_split_reconstruct_roundtrip:
  assumes init: "ImageCRTSplitter_init n t moduli = Inr sp"
    and fit: "\<forall>m\<in>set moduli. m < 2 ^ 63"
    and wf: "image_wf image_array"
    and pix: "\<forall>p\<in>set (img_data image_array). 0 \<le> p \<and> p \<le> 255"
    and idxs: "idxs \<noteq> []" "distinct idxs" "\<forall>i\<in>set idxs. i < n"
  shows "\<exists>shares. split sp image_array = Inr shares \<and> length shares = n \<and>
           reconstruct (map (\<lambda>i. shares ! i) idxs) = Inr (Some image_array) \<and>
           (255 < m0 \<longrightarrow>
              batch_crt_solve (map (\<lambda>i. sp_data (shares ! i)) idxs)
                              (map (\<lambda>i. sp_modulus (shares ! i)) idxs) m0
                = Inr (img_data image_array))"
proof -
  let ?ms = "spl_moduli sp"
  let ?shares = "map (\<lambda>i. \<lparr>sp_index = i, sp_modulus = ?ms ! i, sp_data = img_data image_array,
                              sp_shape = img_shape image_array\<rparr>) [0..<length ?ms]"
  from init_moduli[OF init] have len: "length ?ms = n" and pc: "all_pairs_coprime ?ms"
    and big: "\<forall>m\<in>set ?ms. 255 < m" and srt: "?ms = sort moduli" by simp_all
  have fit64: "\<forall>m\<in>set ?ms. int64_ok m"
  proof
    fix m assume m: "m \<in> set ?ms"
    then have "m \<in> set moduli" using srt by simp
    with fit have "m < 2 ^ 63" by blast
    moreover have "255 < m" using big m by blast
    ultimately show "int64_ok m" by (simp add: int64_ok_def)
  qed
  have sp: "split sp image_array = Inr ?shares"
    by (rule split_fitting_moduli[OF fit64 big pix])
  have idx_lt: "\<forall>i\<in>set idxs. i < length ?ms" using idxs(3) len by simp
  have sel: "map (\<lambda>i. ?shares ! i) idxs =
      map (\<lambda>i. \<lparr>sp_index = i, sp_modulus = ?ms ! i, sp_data = img_data image_array,
                 sp_shape = img_shape image_array\<rparr>) idxs"
    using idx_lt by simp
  have r: "reconstruct (map (\<lambda>i. ?shares ! i) idxs) = Inr (Some image_array)"
    by (rule reconstruct_selected_shares[OF pc big pix wf idxs(1,2) idx_lt sel])
  have d: "map (\<lambda>i. sp_data (?shares ! i)) idxs = map (\<lambda>i. img_data image_array) idxs"
    using idx_lt by simp
  have m: "map (\<lambda>i. sp_modulus (?shares ! i)) idxs = map (\<lambda>i. ?ms ! i) idxs"
    using idx_lt by simp
  have b: "batch_crt_solve (map (\<lambda>i. sp_data (?shares ! i)) idxs)
                            (map (\<lambda>i. sp_modulus (?shares ! i)) idxs) m0
              = Inr (img_data image_array)" if "255 < m0"
    unfolding d m by (rule batch_crt_solve_selected[OF pc big pix idxs(1,2) idx_lt that])
  have l: "length ?shares = n" using len by simp
  from sp l r b show ?thesis by blast
qed

lemma init_example:
  "ImageCRTSplitter_init 3 2 [263, 257, 269] =
     Inr \<lparr>spl_n = 3, spl_t = 2, spl_moduli = [257, 263, 269], spl_reconstruction_capacity = 67591\<rparr>"
  by code_simp

text \<open>
  The round trip on a 1x2x1 image, moduli 263, 257, 269 with \<open>(n, t) = (3, 2)\<close>, recombining
  shares 2 and 0.
\<close>

theorem crt_split_reconstruct_roundtrip_witness:
  "ImageCRTSplitter_init 3 2 [263, 257, 269] =
     Inr \<lparr>spl_n = 3, spl_t = 2, spl_moduli = [257, 263, 269], spl_reconstruction_capacity = 67591\<rparr> \<and>
   list_all (\<lambda>m. m < 2 ^ 63) [263, 257, 269 :: int] \<and>
   image_wf \<lparr>img_shape = (1, 2, 1), img_data = [7, 255]\<rparr> \<and>
   list_all (\<lambda>p. 0 \<le> p \<and> p \<le> 255) (img_data \<lparr>img_shape = (1, 2, 1), img_data = [7, 255]\<rparr>) \<and>
   distinct [2, 0::nat] \<and> list_all (\<lambda>i. i < 3) [2, 0::nat] \<and>
   (\<exists>shares.
      split \<lparr>spl_n = 3, spl_t = 2, spl_moduli = [257, 263, 269], spl_reconstruction_capacity = 67591\<rparr>
        \<lparr>img_shape = (1, 2, 1), img_data = [7, 255]\<rparr> = Inr shares \<and>
      reconstruct (map (\<lambda>i. shares ! i) [2, 0]) = Inr (Some \<lparr>img_shape = (1, 2, 1), img_data = [7, 255]\<rparr>) \<and>
      batch_crt_solve (map (\<lambda>i. sp_data (shares ! i)) [2, 0])
        (map (\<lambda>i. sp_modulus (shares ! i)) [2, 0]) 257 = Inr [7, 255])"
proof -
  have h1: "\<forall>m\<in>set [263, 257, 269 :: int]. m < 2 ^ 63" by simp
  have h2: "image_wf \<lparr>img_shape = (1, 2, 1), img_data = [7, 255]\<rparr>" by (simp add: image_wf_def)
  have h3: "\<forall>p\<in>set (img_data \<lparr>img_shape = (1, 2, 1), img_data = [7, 255]\<rparr>). 0 \<le> p \<and> p \<le> 255" by simp
  have h4: "[2, 0::nat] \<noteq> []" "distinct [2, 0::nat]" "\<forall>i\<in>set [2, 0::nat]. i < 3" by simp_all
  from crt_split_reconstruct_roundtrip[OF init_example h1 h2 h3 h4, of 257]
  obtain shares where
    "split \<lparr>spl_n = 3, spl_t = 2, spl_moduli = [257, 263, 269], spl_reconstruction_capacity = 67591\<rparr>
        \<lparr>img_shape = (1, 2, 1), img_data = [7, 255]\<rparr> = Inr shares"
    "reconstruct (map (\<lambda>i. shares ! i) [2, 0]) = Inr (Some \<lparr>img_shape = (1, 2, 1), img_data = [7, 255]\<rparr>)"
    "batch_crt_solve (map (\<lambda>i. sp_data (shares ! i)) [2, 0])
        (map (\<lambda>i. sp_modulus (shares ! i)) [2, 0]) 257 = Inr [7, 255]"
    by auto
  then have "\<exists>shares.
      split \<lparr>spl_n = 3, spl_t = 2, spl_moduli = [257, 263, 269], spl_reconstruction_capacity = 67591\<rparr>
        \<lparr>img_shape = (1, 2, 1), img_data = [7, 255]\<rparr> = Inr shares \<and>
      reconstruct (map (\<lambda>i. shares ! i) [2, 0]) = Inr (Some \<lparr>img_shape = (1, 2, 1), img_data = [7, 255]\<rparr>) \<and>
      batch_crt_solve (map (\<lambda>i. sp_data (shares ! i)) [2, 0])
        (map (\<lambda>i. sp_modulus (shares ! i)) [2, 0]) 257 = Inr [7, 255]"
    by blast
  with init_example h2 show ?thesis by simp
qed

text \<open>
  Claim C1 as stated fails for a modulus that does not fit 64 bits. The moduli
  \<open>2\<^sup>6\<^sup>3\<close> and 257 are pairwise coprime, above 255, and satisfy the Asmuth-Bloom bound for
  \<open>(n, t) = (2, 2)\<close>; the constructor accepts them, and \<^verbatim>\<open>split\<close> raises OverflowError.
\<close>

theorem crt_split_modulus_overflow_counterexample:
  "ImageCRTSplitter_init 2 2 [2 ^ 63, 257] =
     Inr \<lparr>spl_n = 2, spl_t = 2, spl_moduli = [257, 2 ^ 63],
          spl_reconstruction_capacity = 257 * 2 ^ 63\<rparr> \<and>
   gcd (257 :: int) (2 ^ 63) = 1 \<and> (255 :: int) < 257 \<and> (255 :: int) < 2 ^ 63 \<and>
   (257 :: int) * 2 ^ 63 > 255 * 2 ^ 63 \<and>
   split \<lparr>spl_n = 2, spl_t = 2, spl_moduli = [257, 2 ^ 63],
          spl_reconstruction_capacity = 257 * 2 ^ 63\<rparr>
     \<lparr>img_shape = (1, 2, 1), img_data = [7, 255]\<rparr> = Inl OverflowError"
  by code_simp


end
